theory Spec2Isabelle
  imports Complex_Main
begin

section \<open>The event-to-basecall alignment dump of nanopolish\<close>

text \<open>
  This theory embeds \<^verbatim>\<open>src/nanopolish_dump_initial_alignment.cpp\<close>: the option
  parser \<^verbatim>\<open>parse_dumpalignment_options\<close> and the driver \<^verbatim>\<open>dumpalignment_main\<close>
  with its two loops, the inversion of the per-base event ranges into a per-event base
  index and the loop that writes one row per event.

  A value of type \<open>fault\<close> marks the step at which the C++ raises or leaves the
  behaviour undefined. For an exception nobody catches the process ends there. For
  undefined behaviour the model says nothing about what the program does from that step
  on: a result \<open>Inl f\<close> only tells that the step is reached.
  \<^item> \<open>Out_Of_Bounds_Write\<close>: \<^verbatim>\<open>event_to_base_map[j] = i\<close> with \<open>j\<close> outside the vector
    (\<^verbatim>\<open>operator[]\<close> checks nothing);
  \<^item> \<open>Signed_Overflow\<close>: \<^verbatim>\<open>++j\<close> on an \<^verbatim>\<open>int\<close> that holds \<^verbatim>\<open>INT_MAX\<close>;
  \<^item> \<open>Out_Of_Range\<close>: the exception \<^verbatim>\<open>std::out_of_range\<close> that
    \<^verbatim>\<open>std::string::substr(pos, len)\<close> throws when \<open>pos\<close> exceeds the length of the
    string; nothing catches it;
  \<^item> \<open>Null_File_Handle\<close>: \<^verbatim>\<open>fprintf\<close> on the null pointer that \<^verbatim>\<open>fopen\<close> returned; the
    source does not test the handle of the output file.
\<close>

datatype fault = Out_Of_Bounds_Write | Signed_Overflow | Out_Of_Range | Null_File_Handle

subsection \<open>The read, as the driver uses it\<close>

text \<open>
  \<^verbatim>\<open>SquiggleRead\<close>, \<^verbatim>\<open>IndexPair\<close> and the element type of \<^verbatim>\<open>base_to_event_map\<close> are
  declared in a header that is not part of the source under study. They are modelled by
  the members the driver touches: the two \<^verbatim>\<open>int\<close> fields of an \<^verbatim>\<open>IndexPair\<close>, the array
  \<^verbatim>\<open>indices\<close> indexed by the strand, the basecalled sequence, the events of each strand
  (only their number is used) and the four accessors, which are parameters of the model.
  The type \<open>'f\<close> stands for \<^verbatim>\<open>float\<close>: the driver only moves such values from the accessors
  to the output.
\<close>

record IndexPair =
  start :: int
  stop :: int

record EventRangeForBase =
  indices :: "nat \<Rightarrow> IndexPair"

record ('e, 'f) SquiggleRead =
  read_sequence :: string
  events :: "nat \<Rightarrow> 'e list"
  base_to_event_map :: "EventRangeForBase list"
  get_event_sample_idx :: "nat \<Rightarrow> nat \<Rightarrow> nat \<times> nat"
  get_unscaled_level :: "nat \<Rightarrow> nat \<Rightarrow> 'f"
  get_stdv :: "nat \<Rightarrow> nat \<Rightarrow> 'f"
  get_fully_scaled_level :: "nat \<Rightarrow> nat \<Rightarrow> 'f"

text \<open>\<^verbatim>\<open>size_t strand_idx = 0;\<close> and \<^verbatim>\<open>int k = 6;\<close>\<close>

abbreviation strand_idx :: nat where
  "strand_idx \<equiv> 0"

abbreviation k :: nat where
  "k \<equiv> 6"

subsection \<open>Machine integers\<close>

text \<open>
  \<^verbatim>\<open>event_to_base_map[j] = i\<close> stores the \<^verbatim>\<open>size_t\<close> \<open>i\<close> in an \<^verbatim>\<open>int\<close>: the value is
  reduced modulo \<open>2 ^ 32\<close> into the signed range. \<^verbatim>\<open>sample_range.second - sample_range.first\<close>
  is a subtraction of \<^verbatim>\<open>size_t\<close>, modulo \<open>2 ^ 64\<close>.
\<close>

definition INT_MAX :: int where
  "INT_MAX = 2 ^ 31 - 1"

definition int_of_size_t :: "nat \<Rightarrow> int" where
  "int_of_size_t n = (let r = int n mod 2 ^ 32 in if r < 2 ^ 31 then r else r - 2 ^ 32)"

definition size_t_minus :: "nat \<Rightarrow> nat \<Rightarrow> nat" where
  "size_t_minus a b = (a mod 2 ^ 64 + 2 ^ 64 - b mod 2 ^ 64) mod 2 ^ 64"

subsection \<open>The inversion loop\<close>

text \<open>
  \<^verbatim>\<open>for(int j = ip.start; j != -1 && j <= ip.stop; ++j) event_to_base_map[j] = i;\<close>
  The test \<^verbatim>\<open>j != -1\<close> is made before every iteration, as in the source.
\<close>

function claim_events :: "nat \<Rightarrow> int \<Rightarrow> int \<Rightarrow> int list \<Rightarrow> fault + int list" where
  "claim_events i j e m =
     (if j \<noteq> - 1 \<and> j \<le> e then
        (if j < 0 \<or> int (length m) \<le> j then Inl Out_Of_Bounds_Write
         else if j = INT_MAX then Inl Signed_Overflow
         else claim_events i (j + 1) e (m[nat j := int_of_size_t i]))
      else Inr m)"
  by pat_completeness auto
termination
  by (relation "measure (\<lambda>(i, j, e, m). nat (e + 1 - j))") auto

text \<open>
  \<^verbatim>\<open>for(size_t i = 0; i < sr.base_to_event_map.size(); ++i)\<close> around it, reading
  \<^verbatim>\<open>sr.base_to_event_map[i].indices[strand_idx]\<close>.
\<close>

function invert_loop :: "EventRangeForBase list \<Rightarrow> nat \<Rightarrow> int list \<Rightarrow> fault + int list" where
  "invert_loop tbl i m =
     (if i < length tbl then
        (let ip = indices (tbl ! i) strand_idx in
         case claim_events i (start ip) (stop ip) m of
           Inl f \<Rightarrow> Inl f
         | Inr m' \<Rightarrow> invert_loop tbl (i + 1) m')
      else Inr m)"
  by pat_completeness auto
termination
  by (relation "measure (\<lambda>(tbl, i, m). length tbl - i)") auto

text \<open>
  \<^verbatim>\<open>std::vector<int> event_to_base_map(sr.events[strand_idx].size(), -1);\<close> and the loop.
\<close>

definition event_to_base_map :: "('e, 'f) SquiggleRead \<Rightarrow> fault + int list" where
  "event_to_base_map sr =
     invert_loop (base_to_event_map sr) 0 (replicate (length (events sr strand_idx)) (- 1))"

subsection \<open>The row loop\<close>

text \<open>
  A row holds the arguments of the \<^verbatim>\<open>fprintf\<close> that writes it. \<open>raw_start\<close> and
  \<open>raw_length\<close> are the \<^verbatim>\<open>size_t\<close> values that the source casts to \<^verbatim>\<open>float\<close> in the call.
\<close>

record 'f OutputRow =
  event_index :: nat
  base_index :: int
  strand_index :: int
  event_mean :: 'f
  event_stdv :: 'f
  raw_start :: nat
  raw_length :: nat
  kmer :: string

text \<open>\<^verbatim>\<open>std::string::substr(pos, len)\<close>: throws when \<open>pos > size()\<close>, else the characters
  from \<open>pos\<close>, at most \<open>len\<close> of them.\<close>

definition substr :: "string \<Rightarrow> nat \<Rightarrow> nat \<Rightarrow> fault + string" where
  "substr s pos len = (if length s < pos then Inl Out_Of_Range else Inr (take len (drop pos s)))"

text \<open>
  The body of the loop over the events, lines 174 to 209. \<open>m\<close> is \<^verbatim>\<open>event_to_base_map\<close> and
  \<open>scale\<close> is \<^verbatim>\<open>opt::scale_events\<close>. The body reads \<^verbatim>\<open>prev_idx\<close> and never assigns it.
\<close>

definition event_row ::
  "('e, 'f) SquiggleRead \<Rightarrow> bool \<Rightarrow> int list \<Rightarrow> int \<Rightarrow> nat \<Rightarrow> fault + 'f OutputRow" where
  "event_row sr scale m prev_idx i =
     (let sample_range = get_event_sample_idx sr strand_idx i in
      case (if 0 \<le> m ! i
            then (case substr (read_sequence sr) (nat (m ! i)) k of
                    Inl f \<Rightarrow> Inl f
                  | Inr s \<Rightarrow> Inr (m ! i, s))
            else Inr (prev_idx, ''NNNNNN'')) of
        Inl f \<Rightarrow> Inl f
      | Inr (base_idx, kmer_str) \<Rightarrow>
          Inr \<lparr> event_index = i,
                base_index = base_idx,
                strand_index = 0,
                event_mean = (if scale then get_fully_scaled_level sr i strand_idx
                              else get_unscaled_level sr i strand_idx),
                event_stdv = get_stdv sr i strand_idx,
                raw_start = fst sample_range,
                raw_length = size_t_minus (snd sample_range) (fst sample_range),
                kmer = kmer_str \<rparr>)"

text \<open>
  \<^verbatim>\<open>for(size_t i = 0; i < sr.events[strand_idx].size(); ++i)\<close>, with the rows written so far
  as accumulator. \<^verbatim>\<open>prev_idx\<close> is declared before the loop and passed along unchanged.
\<close>

function emit_rows ::
  "('e, 'f) SquiggleRead \<Rightarrow> bool \<Rightarrow> int list \<Rightarrow> int \<Rightarrow> nat \<Rightarrow> 'f OutputRow list
     \<Rightarrow> fault + 'f OutputRow list" where
  "emit_rows sr scale m prev_idx i out =
     (if i < length (events sr strand_idx) then
        (case event_row sr scale m prev_idx i of
           Inl f \<Rightarrow> Inl f
         | Inr row \<Rightarrow> emit_rows sr scale m prev_idx (i + 1) (out @ [row]))
      else Inr out)"
  by pat_completeness auto
termination
  by (relation "measure (\<lambda>(sr, scale, m, prev_idx, i, out). length (events sr strand_idx) - i)")
     auto

text \<open>
  The body of the loop over the reads, for one read: the inversion, the \<^verbatim>\<open>fopen\<close> of the
  output file (\<open>opened\<close> tells whether it gave a handle), then the rows with
  \<^verbatim>\<open>int prev_idx = 0\<close>. The header line is a constant and is left out of the rows.
\<close>

definition dump_read ::
  "('e, 'f) SquiggleRead \<Rightarrow> bool \<Rightarrow> bool \<Rightarrow> fault + 'f OutputRow list" where
  "dump_read sr scale opened =
     (case event_to_base_map sr of
        Inl f \<Rightarrow> Inl f
      | Inr m \<Rightarrow> if \<not> opened then Inl Null_File_Handle else emit_rows sr scale m 0 0 [])"

subsection \<open>The option parser\<close>

text \<open>
  \<^verbatim>\<open>getopt_long\<close> and the extraction \<^verbatim>\<open>arg >> x\<close> belong to the C and C++ libraries.
  The parser is modelled from what they hand to the \<^verbatim>\<open>switch\<close>: one value per option
  found, carrying for \<^verbatim>\<open>-r\<close>, \<^verbatim>\<open>-t\<close> and \<^verbatim>\<open>-o\<close> the value that the extraction leaves in
  the variable of \<^verbatim>\<open>namespace opt\<close>. \<open>Opt_unknown\<close> is the return value \<^verbatim>\<open>'?'\<close>;
  \<open>Opt_v\<close> is \<^verbatim>\<open>'v'\<close>, for which the \<^verbatim>\<open>switch\<close> has no case.
\<close>

datatype getopt_result =
    Opt_r string
  | Opt_unknown
  | Opt_t int
  | Opt_o string
  | Opt_scale
  | Opt_help
  | Opt_version
  | Opt_v

record options =
  verbose :: nat
  reads_file :: string
  output_dir :: string
  scale_events :: bool
  num_threads :: int

text \<open>The initial values of the variables of \<^verbatim>\<open>namespace opt\<close>.\<close>

definition initial_opt :: options where
  "initial_opt =
     \<lparr> verbose = 0, reads_file = [], output_dir = [], scale_events = False, num_threads = 1 \<rparr>"

definition EXIT_SUCCESS :: nat where
  "EXIT_SUCCESS = 0"

definition EXIT_FAILURE :: nat where
  "EXIT_FAILURE = 1"

text \<open>What the program prints on \<^verbatim>\<open>std::cout\<close>, \<^verbatim>\<open>std::cerr\<close> and \<^verbatim>\<open>stderr\<close>.\<close>

datatype message =
    Usage_Message
  | Version_Message
  | Too_Many_Arguments
  | Invalid_Number_Of_Threads int
  | Reads_File_Must_Be_Provided
  | Could_Not_Open string
  | Could_Not_Gzdopen string

text \<open>
  The \<^verbatim>\<open>for\<close> loop over the options. \<open>Inl status\<close> is \<^verbatim>\<open>exit(status)\<close> inside the loop;
  \<open>Inr (die, opt)\<close> is the state when \<^verbatim>\<open>getopt_long\<close> returns \<open>-1\<close>.
\<close>

fun option_loop ::
  "getopt_result list \<Rightarrow> bool \<Rightarrow> options \<Rightarrow> message list \<times> (nat + bool \<times> options)" where
  "option_loop [] die opt = ([], Inr (die, opt))"
| "option_loop (Opt_r f # cs) die opt = option_loop cs die (opt\<lparr>reads_file := f\<rparr>)"
| "option_loop (Opt_unknown # cs) die opt = option_loop cs True opt"
| "option_loop (Opt_t n # cs) die opt = option_loop cs die (opt\<lparr>num_threads := n\<rparr>)"
| "option_loop (Opt_o d # cs) die opt = option_loop cs die (opt\<lparr>output_dir := d\<rparr>)"
| "option_loop (Opt_scale # cs) die opt = option_loop cs die (opt\<lparr>scale_events := True\<rparr>)"
| "option_loop (Opt_help # cs) die opt = ([Usage_Message], Inl EXIT_SUCCESS)"
| "option_loop (Opt_version # cs) die opt = ([Version_Message], Inl EXIT_SUCCESS)"
| "option_loop (Opt_v # cs) die opt = option_loop cs die opt"

text \<open>
  \<^verbatim>\<open>parse_dumpalignment_options\<close>: the loop, then the three checks of lines 106 to 119 and
  the exit of lines 121 to 125. \<open>extra\<close> is \<^verbatim>\<open>argc - optind\<close>.
\<close>

definition parse_dumpalignment_options ::
  "getopt_result list \<Rightarrow> int \<Rightarrow> options \<Rightarrow> message list \<times> (nat + options)" where
  "parse_dumpalignment_options cs extra opt0 =
     (case option_loop cs False opt0 of
        (out, Inl status) \<Rightarrow> (out, Inl status)
      | (out, Inr (die, opt)) \<Rightarrow>
          (let (out, die) = (if 0 < extra then (out @ [Too_Many_Arguments], True)
                             else (out, die));
               (out, die) = (if num_threads opt \<le> 0
                             then (out @ [Invalid_Number_Of_Threads (num_threads opt)], True)
                             else (out, die));
               (out, die) = (if reads_file opt = []
                             then (out @ [Reads_File_Must_Be_Provided], True)
                             else (out, die))
           in if die then (out @ [Usage_Message], Inl EXIT_FAILURE) else (out, Inr opt)))"

subsection \<open>The driver\<close>

text \<open>
  What the driver takes from outside: the options on the command line, whether the reads
  file opens (\<^verbatim>\<open>fopen\<close>, \<^verbatim>\<open>gzdopen\<close>), the records that \<^verbatim>\<open>kseq_read\<close> yields, each with
  the \<^verbatim>\<open>SquiggleRead\<close> built for its name, and whether an output path opens for writing.
\<close>

record ('e, 'f) environment =
  getopt_results :: "getopt_result list"
  remaining_args :: int
  fopen_read :: "string \<Rightarrow> bool"
  gzdopen_ok :: bool
  sequences :: "(string \<times> ('e, 'f) SquiggleRead) list"
  fopen_write :: "string \<Rightarrow> bool"

datatype ending = Exited nat | Returned nat | Aborted fault

record 'f run =
  messages :: "message list"
  written :: "(string \<times> 'f OutputRow list) list"
  ending :: ending

text \<open>
  \<^verbatim>\<open>while((ret = kseq_read(seq)) >= 0)\<close>: one read after the other. The accumulator is
  the log of the dumps completed so far, in order: the path given to \<^verbatim>\<open>fopen(path, "w")\<close>
  and the rows written through the handle. The log is not a file system: two reads of
  the same name give the same path twice, and the second \<^verbatim>\<open>fopen\<close> truncates what the
  first dump wrote. A fault is recorded at the read that reaches it.
\<close>

fun read_loop ::
  "options \<Rightarrow> (string \<Rightarrow> bool) \<Rightarrow> (string \<times> ('e, 'f) SquiggleRead) list
     \<Rightarrow> (string \<times> 'f OutputRow list) list
     \<Rightarrow> (string \<times> 'f OutputRow list) list \<times> fault option" where
  "read_loop opt fw [] files = (files, None)"
| "read_loop opt fw ((name, sr) # rest) files =
     (let path = output_dir opt @ ''/'' @ name @ ''.tsv'' in
      case dump_read sr (scale_events opt) (fw path) of
        Inl f \<Rightarrow> (files, Some f)
      | Inr rows \<Rightarrow> read_loop opt fw rest (files @ [(path, rows)]))"

definition dumpalignment_main :: "('e, 'f) environment \<Rightarrow> 'f run" where
  "dumpalignment_main env =
     (case parse_dumpalignment_options (getopt_results env) (remaining_args env) initial_opt of
        (out, Inl status) \<Rightarrow> \<lparr> messages = out, written = [], ending = Exited status \<rparr>
      | (out, Inr opt) \<Rightarrow>
          if \<not> fopen_read env (reads_file opt)
          then \<lparr> messages = out @ [Could_Not_Open (reads_file opt)], written = [],
                 ending = Exited EXIT_FAILURE \<rparr>
          else if \<not> gzdopen_ok env
          then \<lparr> messages = out @ [Could_Not_Gzdopen (reads_file opt)], written = [],
                 ending = Exited EXIT_FAILURE \<rparr>
          else (case read_loop opt (fopen_write env) (sequences env) [] of
                  (files, Some f) \<Rightarrow> \<lparr> messages = out, written = files, ending = Aborted f \<rparr>
                | (files, None) \<Rightarrow>
                    \<lparr> messages = out, written = files, ending = Returned EXIT_SUCCESS \<rparr>))"

subsection \<open>Notions of the specification\<close>

text \<open>
  A range contains an event when its \<open>start\<close> is not the sentinel \<open>-1\<close> and the event
  index lies in \<open>[start, stop]\<close>. The claimants of an event are the bases whose range for
  strand 0 contains it, in increasing order.
\<close>

definition covers :: "IndexPair \<Rightarrow> nat \<Rightarrow> bool" where
  "covers ip ev = (start ip \<noteq> - 1 \<and> start ip \<le> int ev \<and> int ev \<le> stop ip)"

definition claimants :: "('e, 'f) SquiggleRead \<Rightarrow> nat \<Rightarrow> nat list" where
  "claimants sr ev =
     filter (\<lambda>b. covers (indices (base_to_event_map sr ! b) strand_idx) ev)
       [0 ..< length (base_to_event_map sr)]"

text \<open>The columns of a row other than \<open>event_mean\<close>.\<close>

definition other_columns :: "'f OutputRow \<Rightarrow> nat \<times> int \<times> int \<times> 'f \<times> nat \<times> nat \<times> string" where
  "other_columns r =
     (event_index r, base_index r, strand_index r, event_stdv r, raw_start r, raw_length r, kmer r)"

subsection \<open>Reads to run the driver on\<close>

text \<open>
  \<open>a_read s n rs\<close> has the sequence \<open>s\<close>, \<open>n\<close> events on each strand and the ranges \<open>rs\<close>,
  one pair \<open>(start, stop)\<close> per base, the same for both strands. Event \<open>i\<close> spans the raw
  samples \<open>[10 i, 10 i + 10)\<close>, has the unscaled level \<open>i\<close>, the scaled level \<open>i + 100\<close>
  and the deviation \<open>1\<close>.
\<close>

definition a_read :: "string \<Rightarrow> nat \<Rightarrow> (int \<times> int) list \<Rightarrow> (unit, real) SquiggleRead" where
  "a_read s n rs =
     \<lparr> read_sequence = s,
       events = (\<lambda>strand. replicate n ()),
       base_to_event_map = map (\<lambda>(a, b). \<lparr> indices = (\<lambda>strand. \<lparr> start = a, stop = b \<rparr>) \<rparr>) rs,
       get_event_sample_idx = (\<lambda>strand i. (10 * i, 10 * i + 10)),
       get_unscaled_level = (\<lambda>i strand. real i),
       get_stdv = (\<lambda>i strand. 1),
       get_fully_scaled_level = (\<lambda>i strand. real i + 100) \<rparr>"

text \<open>The row that the driver writes for event \<open>i\<close> of such a read.\<close>

definition a_row :: "bool \<Rightarrow> nat \<Rightarrow> int \<Rightarrow> string \<Rightarrow> real OutputRow" where
  "a_row scale i b s =
     \<lparr> event_index = i, base_index = b, strand_index = 0,
       event_mean = (if scale then real i + 100 else real i), event_stdv = 1,
       raw_start = 10 * i, raw_length = 10, kmer = s \<rparr>"

text \<open>
  Scenario A of the specification: the sequence \<open>ACGTACGT\<close>, three events, base 1 with the
  events 0 and 1, base 3 with event 2, bases 0 and 2 with none.
\<close>

definition scenario_A :: "(unit, real) SquiggleRead" where
  "scenario_A = a_read ''ACGTACGT'' 3 [(- 1, - 1), (0, 1), (- 1, - 1), (2, 2)]"

text \<open>A stay: base 1 has event 0, and no base has event 1.\<close>

definition stay_read :: "(unit, real) SquiggleRead" where
  "stay_read = a_read ''ACGTACGT'' 2 [(- 1, - 1), (0, 0)]"

text \<open>Two ranges that overlap: the bases 0 and 1 both have event 1.\<close>

definition overlap_read :: "(unit, real) SquiggleRead" where
  "overlap_read = a_read ''ACGTACGT'' 3 [(0, 1), (1, 2)]"

text \<open>A range with \<open>0 \<le> start\<close> and \<open>stop < start\<close>, followed by a range with event 0.\<close>

definition malformed_read :: "(unit, real) SquiggleRead" where
  "malformed_read = a_read ''ACGTACGT'' 2 [(1, 0), (0, 0)]"

text \<open>A read with two events and no base.\<close>

definition baseless_read :: "(unit, real) SquiggleRead" where
  "baseless_read = a_read ''ACGT'' 2 []"

text \<open>The rows of \<open>overlap_read\<close> with scaled levels.\<close>

definition overlap_rows :: "real OutputRow list" where
  "overlap_rows =
     [a_row True 0 0 ''ACGTAC'', a_row True 1 1 ''CGTACG'', a_row True 2 1 ''CGTACG'']"

text \<open>The rows of scenario A with unscaled levels, and of \<open>stay_read\<close> with scaled ones.\<close>

definition scenario_A_rows :: "real OutputRow list" where
  "scenario_A_rows =
     [a_row False 0 1 ''CGTACG'', a_row False 1 1 ''CGTACG'', a_row False 2 3 ''TACGT'']"

definition stay_rows :: "real OutputRow list" where
  "stay_rows = [a_row True 0 1 ''CGTACG'', a_row True 1 0 ''NNNNNN'']"

text \<open>Event 0 belongs to base 5 of a sequence of 4 characters.\<close>

definition short_read :: "(unit, real) SquiggleRead" where
  "short_read =
     a_read ''ACGT'' 1 [(- 1, - 1), (- 1, - 1), (- 1, - 1), (- 1, - 1), (- 1, - 1), (0, 0)]"


subsection \<open>Command lines to run the driver on\<close>

text \<open>
  \<open>an_invocation cs\<close>: the options \<open>cs\<close> and no further argument, a reads file that
  opens and holds one record, the read of scenario A, and output files that open.
\<close>

definition an_invocation :: "getopt_result list \<Rightarrow> (unit, real) environment" where
  "an_invocation cs =
     \<lparr> getopt_results = cs, remaining_args = 0, fopen_read = (\<lambda>path. True),
       gzdopen_ok = True, sequences = [(''read1'', scenario_A)],
       fopen_write = (\<lambda>path. True) \<rparr>"

text \<open>
  \<^verbatim>\<open>-t 0 --help\<close>, \<^verbatim>\<open>--version\<close> followed by an unknown option, \<^verbatim>\<open>-t 0\<close> and
  \<^verbatim>\<open>-r reads.fa -t 4 -o out\<close>.
\<close>

definition help_invocation :: "(unit, real) environment" where
  "help_invocation = an_invocation [Opt_t 0, Opt_help]"

definition version_invocation :: "(unit, real) environment" where
  "version_invocation = an_invocation [Opt_version, Opt_unknown]"

definition invalid_invocation :: "(unit, real) environment" where
  "invalid_invocation = an_invocation [Opt_t 0]"

definition valid_invocation :: "(unit, real) environment" where
  "valid_invocation = an_invocation [Opt_r ''reads.fa'', Opt_t 4, Opt_o ''out'']"

section \<open>The loops, step by step\<close>

declare claim_events.simps [simp del]
declare invert_loop.simps [simp del]
declare emit_rows.simps [simp del]

lemma list_update_Cons_numeral [simp]:
  "(x # xs)[numeral n := y] = x # xs[pred_numeral n := y]"
  by (simp add: numeral_eq_Suc)

lemma replicate_numeral [simp]:
  "replicate (numeral n) x = x # replicate (pred_numeral n) x"
  by (simp add: numeral_eq_Suc)

lemmas run_simps =
  a_read_def event_to_base_map_def int_of_size_t_def INT_MAX_def dump_read_def
  event_row_def substr_def a_row_def size_t_minus_def
  claim_events.simps invert_loop.simps emit_rows.simps

lemma int_of_size_t_small: "n < 2 ^ 31 \<Longrightarrow> int_of_size_t n = int n"
  by (simp add: int_of_size_t_def Let_def)

subsection \<open>The inner loop of the inversion\<close>

lemma claim_events_skip: "j = - 1 \<or> e < j \<Longrightarrow> claim_events i j e m = Inr m"
  by (subst claim_events.simps) auto

lemma claim_events_Inr:
  "claim_events i j e m = Inr m' \<Longrightarrow>
     length m' = length m \<and>
     (\<forall>x < length m. m' ! x =
        (if j \<noteq> - 1 \<and> j \<le> int x \<and> int x \<le> e then int_of_size_t i else m ! x))"
proof (induction i j e m rule: claim_events.induct)
  case (1 i j e m)
  show ?case
  proof (cases "j \<noteq> - 1 \<and> j \<le> e")
    case False
    with "1.prems" have "m' = m" by (subst (asm) claim_events.simps) simp
    with False show ?thesis by auto
  next
    case True
    with "1.prems" have ok: "\<not> (j < 0 \<or> int (length m) \<le> j)" "j \<noteq> INT_MAX"
      and rec: "claim_events i (j + 1) e (m[nat j := int_of_size_t i]) = Inr m'"
      by (subst (asm) claim_events.simps, simp split: if_splits)+
    from "1.IH"[OF True ok rec]
    have len: "length m' = length m"
      and ih: "\<forall>x < length m. m' ! x =
        (if j + 1 \<noteq> - 1 \<and> j + 1 \<le> int x \<and> int x \<le> e then int_of_size_t i
         else m[nat j := int_of_size_t i] ! x)"
      by simp_all
    show ?thesis
    proof (intro conjI allI impI)
      show "length m' = length m" by (rule len)
    next
      fix x assume x: "x < length m"
      with ih have "m' ! x =
        (if j + 1 \<noteq> - 1 \<and> j + 1 \<le> int x \<and> int x \<le> e then int_of_size_t i
         else m[nat j := int_of_size_t i] ! x)" by blast
      moreover from ok obtain y where "j = int y" "y < length m"
        by (cases j) auto
      ultimately show "m' ! x =
        (if j \<noteq> - 1 \<and> j \<le> int x \<and> int x \<le> e then int_of_size_t i else m ! x)"
        using x True by (cases "y = x") (simp_all add: nth_list_update)
    qed
  qed
qed

subsection \<open>The outer loop of the inversion\<close>

lemma invert_loop_step:
  "i < length tbl \<Longrightarrow>
   claim_events i (start (indices (tbl ! i) strand_idx)) (stop (indices (tbl ! i) strand_idx)) m
     = Inr m1 \<Longrightarrow>
   invert_loop tbl i m = invert_loop tbl (i + 1) m1"
  by (subst invert_loop.simps) (simp add: Let_def)

lemma invert_loop_Inr_step:
  assumes "invert_loop tbl i m = Inr m'" and "i < length tbl"
  shows "\<exists>m1. claim_events i (start (indices (tbl ! i) strand_idx))
                 (stop (indices (tbl ! i) strand_idx)) m = Inr m1 \<and>
              invert_loop tbl (i + 1) m1 = Inr m'"
  using assms by (subst (asm) invert_loop.simps) (auto simp: Let_def split: sum.splits)

lemma invert_loop_done: "\<not> i < length tbl \<Longrightarrow> invert_loop tbl i m = Inr m"
  by (subst invert_loop.simps) simp

lemma invert_loop_length:
  "invert_loop tbl i m = Inr m' \<Longrightarrow> length m' = length m"
proof (induction tbl i m rule: invert_loop.induct)
  case (1 tbl i m)
  show ?case
  proof (cases "i < length tbl")
    case False
    with "1.prems" show ?thesis by (simp add: invert_loop_done)
  next
    case True
    from invert_loop_Inr_step[OF "1.prems" True] obtain m1 where
      m1: "claim_events i (start (indices (tbl ! i) strand_idx))
             (stop (indices (tbl ! i) strand_idx)) m = Inr m1"
      and rec: "invert_loop tbl (i + 1) m1 = Inr m'"
      by blast
    from "1.IH"[OF True refl m1 rec] claim_events_Inr[OF m1] show ?thesis by simp
  qed
qed

text \<open>
  After the loop from base \<open>i\<close> on, an event holds the index of the last base from \<open>i\<close> on
  whose range contains it, and its former value when there is none.
\<close>

lemma invert_loop_nth:
  assumes "invert_loop tbl i m = Inr m'" and "x < length m"
  shows "(\<forall>b. i \<le> b \<and> b < length tbl \<and> covers (indices (tbl ! b) strand_idx) x \<and>
              (\<forall>b'. b < b' \<and> b' < length tbl \<longrightarrow> \<not> covers (indices (tbl ! b') strand_idx) x)
            \<longrightarrow> m' ! x = int_of_size_t b) \<and>
         ((\<forall>b. i \<le> b \<and> b < length tbl \<longrightarrow> \<not> covers (indices (tbl ! b) strand_idx) x)
            \<longrightarrow> m' ! x = m ! x)"
  using assms
proof (induction tbl i m rule: invert_loop.induct)
  case (1 tbl i m)
  show ?case
  proof (cases "i < length tbl")
    case False
    with "1.prems" have "m' = m" by (simp add: invert_loop_done)
    with False show ?thesis by auto
  next
    case True
    let ?ip = "indices (tbl ! i) strand_idx"
    from invert_loop_Inr_step[OF "1.prems"(1) True] obtain m1 where
      m1: "claim_events i (start ?ip) (stop ?ip) m = Inr m1"
      and rec: "invert_loop tbl (i + 1) m1 = Inr m'"
      by blast
    from claim_events_Inr[OF m1] "1.prems"(2)
    have len1: "x < length m1"
      and step: "m1 ! x = (if covers ?ip x then int_of_size_t i else m ! x)"
      by (simp_all add: covers_def)
    from "1.IH"[OF True refl m1 rec len1]
    have ih1: "\<And>b. i + 1 \<le> b \<Longrightarrow> b < length tbl
                 \<Longrightarrow> covers (indices (tbl ! b) strand_idx) x
                 \<Longrightarrow> \<forall>b'. b < b' \<and> b' < length tbl \<longrightarrow> \<not> covers (indices (tbl ! b') strand_idx) x
                 \<Longrightarrow> m' ! x = int_of_size_t b"
      and ih2: "\<forall>b. i + 1 \<le> b \<and> b < length tbl \<longrightarrow> \<not> covers (indices (tbl ! b) strand_idx) x
                 \<Longrightarrow> m' ! x = m1 ! x"
      by blast+
    show ?thesis
    proof (intro conjI allI impI)
      fix b
      assume b: "i \<le> b \<and> b < length tbl \<and> covers (indices (tbl ! b) strand_idx) x \<and>
              (\<forall>b'. b < b' \<and> b' < length tbl \<longrightarrow> \<not> covers (indices (tbl ! b') strand_idx) x)"
      show "m' ! x = int_of_size_t b"
      proof (cases "b = i")
        case True
        with b have "\<forall>c. i + 1 \<le> c \<and> c < length tbl \<longrightarrow> \<not> covers (indices (tbl ! c) strand_idx) x"
          by auto
        from ih2[OF this] step b True show ?thesis by simp
      next
        case False
        with b have "i + 1 \<le> b" by simp
        from ih1[OF this] b show ?thesis by blast
      qed
    next
      assume none: "\<forall>b. i \<le> b \<and> b < length tbl \<longrightarrow> \<not> covers (indices (tbl ! b) strand_idx) x"
      then have "\<forall>b. i + 1 \<le> b \<and> b < length tbl \<longrightarrow> \<not> covers (indices (tbl ! b) strand_idx) x"
        by auto
      from ih2[OF this] step none True show "m' ! x = m ! x" by auto
    qed
  qed
qed

lemma event_to_base_map_length:
  "event_to_base_map sr = Inr m \<Longrightarrow> length m = length (events sr strand_idx)"
  unfolding event_to_base_map_def by (drule invert_loop_length) simp

subsection \<open>The loop over the events\<close>

lemma event_row_eq:
  "event_row sr scale m prev_idx i =
     (if 0 \<le> m ! i \<and> length (read_sequence sr) < nat (m ! i) then Inl Out_Of_Range
      else Inr \<lparr> event_index = i,
                 base_index = (if 0 \<le> m ! i then m ! i else prev_idx),
                 strand_index = 0,
                 event_mean = (if scale then get_fully_scaled_level sr i strand_idx
                               else get_unscaled_level sr i strand_idx),
                 event_stdv = get_stdv sr i strand_idx,
                 raw_start = fst (get_event_sample_idx sr strand_idx i),
                 raw_length = size_t_minus (snd (get_event_sample_idx sr strand_idx i))
                                (fst (get_event_sample_idx sr strand_idx i)),
                 kmer = (if 0 \<le> m ! i then take k (drop (nat (m ! i)) (read_sequence sr))
                         else ''NNNNNN'') \<rparr>)"
  by (simp add: event_row_def substr_def Let_def)

lemma event_row_Inr:
  assumes "event_row sr scale m prev_idx i = Inr r"
  shows "event_index r = i"
    and "base_index r = (if 0 \<le> m ! i then m ! i else prev_idx)"
    and "kmer r = (if 0 \<le> m ! i then take k (drop (nat (m ! i)) (read_sequence sr))
                   else ''NNNNNN'')"
    and "0 \<le> m ! i \<Longrightarrow> nat (m ! i) \<le> length (read_sequence sr)"
  using assms by (auto simp: event_row_eq split: if_splits)

lemma event_row_Inl:
  assumes "event_row sr scale m prev_idx i = Inl f"
  shows "f = Out_Of_Range" and "0 \<le> m ! i" and "length (read_sequence sr) < nat (m ! i)"
  using assms by (auto simp: event_row_eq split: if_splits)

lemma emit_rows_done:
  "\<not> i < length (events sr strand_idx) \<Longrightarrow> emit_rows sr scale m p i out = Inr out"
  by (subst emit_rows.simps) simp

lemma emit_rows_step:
  "i < length (events sr strand_idx) \<Longrightarrow> event_row sr scale m p i = Inr row \<Longrightarrow>
   emit_rows sr scale m p i out = emit_rows sr scale m p (i + 1) (out @ [row])"
  by (subst emit_rows.simps) simp

lemma emit_rows_throw:
  "i < length (events sr strand_idx) \<Longrightarrow> event_row sr scale m p i = Inl f \<Longrightarrow>
   emit_rows sr scale m p i out = Inl f"
  by (subst emit_rows.simps) simp

lemma emit_rows_Inr:
  "emit_rows sr scale m p i out = Inr rows \<Longrightarrow>
     length rows = length out + (length (events sr strand_idx) - i) \<and>
     take (length out) rows = out \<and>
     (\<forall>j. i \<le> j \<and> j < length (events sr strand_idx) \<longrightarrow>
        event_row sr scale m p j = Inr (rows ! (length out + (j - i))))"
proof (induction sr scale m p i out rule: emit_rows.induct)
  case (1 sr scale m p i out)
  show ?case
  proof (cases "i < length (events sr strand_idx)")
    case False
    with "1.prems" have "rows = out" by (simp add: emit_rows_done)
    with False show ?thesis by auto
  next
    case True
    show ?thesis
    proof (cases "event_row sr scale m p i")
      case (Inl f)
      with "1.prems" True show ?thesis by (simp add: emit_rows_throw)
    next
      case (Inr row)
      with "1.prems" True have rec: "emit_rows sr scale m p (i + 1) (out @ [row]) = Inr rows"
        by (simp add: emit_rows_step)
      from "1.IH"[OF True Inr rec]
      have len: "length rows = length out + 1 + (length (events sr strand_idx) - (i + 1))"
        and pre: "take (length out + 1) rows = out @ [row]"
        and ih: "\<And>j. i + 1 \<le> j \<Longrightarrow> j < length (events sr strand_idx) \<Longrightarrow>
                   event_row sr scale m p j = Inr (rows ! (length out + 1 + (j - (i + 1))))"
        by simp_all
      have "take (length out) rows = take (length out) (take (length out + 1) rows)"
        by (simp add: min_def)
      with pre have pre': "take (length out) rows = out" by simp
      have "rows ! length out = take (length out + 1) rows ! length out" by simp
      with pre have at: "rows ! length out = row" by simp
      show ?thesis
      proof (intro conjI allI impI)
        show "length rows = length out + (length (events sr strand_idx) - i)"
          using len True by simp
        show "take (length out) rows = out" by (rule pre')
      next
        fix j assume j: "i \<le> j \<and> j < length (events sr strand_idx)"
        show "event_row sr scale m p j = Inr (rows ! (length out + (j - i)))"
        proof (cases "j = i")
          case True
          with Inr at show ?thesis by simp
        next
          case False
          with j have "i + 1 \<le> j" by simp
          from ih[OF this] j
          have e1: "event_row sr scale m p j = Inr (rows ! (length out + 1 + (j - (i + 1))))"
            by blast
          from \<open>i + 1 \<le> j\<close> have e2: "length out + 1 + (j - (i + 1)) = length out + (j - i)"
            by arith
          from e1 show ?thesis unfolding e2 .
        qed
      qed
    qed
  qed
qed

lemma emit_rows_Inl:
  "emit_rows sr scale m p i out = Inl f \<Longrightarrow>
     \<exists>j. i \<le> j \<and> j < length (events sr strand_idx) \<and> event_row sr scale m p j = Inl f"
proof (induction sr scale m p i out rule: emit_rows.induct)
  case (1 sr scale m p i out)
  show ?case
  proof (cases "i < length (events sr strand_idx)")
    case False
    with "1.prems" show ?thesis by (simp add: emit_rows_done)
  next
    case True
    show ?thesis
    proof (cases "event_row sr scale m p i")
      case (Inl g)
      with "1.prems" True have "g = f" by (simp add: emit_rows_throw)
      with Inl True show ?thesis by auto
    next
      case (Inr row)
      with "1.prems" True have "emit_rows sr scale m p (i + 1) (out @ [row]) = Inl f"
        by (simp add: emit_rows_step)
      from "1.IH"[OF True Inr this] obtain j where
        "i + 1 \<le> j" "j < length (events sr strand_idx)" "event_row sr scale m p j = Inl f"
        by blast
      then show ?thesis by (intro exI[of _ j]) simp
    qed
  qed
qed

subsection \<open>One read\<close>

lemma dump_read_Inr:
  assumes "dump_read sr scale opened = Inr rows"
  shows "\<exists>m. event_to_base_map sr = Inr m \<and> opened \<and>
             length m = length (events sr strand_idx) \<and>
             length rows = length (events sr strand_idx) \<and>
             (\<forall>j < length (events sr strand_idx). event_row sr scale m 0 j = Inr (rows ! j))"
proof -
  from assms obtain m where m: "event_to_base_map sr = Inr m" and o: opened
    and e: "emit_rows sr scale m 0 0 [] = Inr rows"
    by (auto simp: dump_read_def split: sum.splits if_splits)
  from emit_rows_Inr[OF e] event_to_base_map_length[OF m] m o show ?thesis by simp
qed

lemma unassigned_event_base_index:
  assumes "dump_read sr scale opened = Inr rows"
    and "event_to_base_map sr = Inr m"
    and "ev < length (events sr strand_idx)"
    and "m ! ev < 0"
  shows "base_index (rows ! ev) = 0"
proof -
  from dump_read_Inr[OF assms(1)] assms(2,3)
  have "event_row sr scale m 0 ev = Inr (rows ! ev)" by auto
  from event_row_Inr(2)[OF this] assms(4) show ?thesis by simp
qed

subsection \<open>Faults of the inversion\<close>




subsection \<open>The scale flag\<close>

lemma event_row_scale:
  "map_sum id other_columns (event_row sr True m p i)
     = map_sum id other_columns (event_row sr False m p i)"
  by (simp add: event_row_eq other_columns_def)

lemma emit_rows_scale:
  "map other_columns out = map other_columns out' \<Longrightarrow>
   map_sum id (map other_columns) (emit_rows sr True m p i out)
     = map_sum id (map other_columns) (emit_rows sr False m p i out')"
proof (induction "length (events sr strand_idx) - i" arbitrary: i out out')
  case 0
  then have "\<not> i < length (events sr strand_idx)" by simp
  with "0.prems" show ?case by (simp add: emit_rows_done)
next
  case (Suc d)
  then have i: "i < length (events sr strand_idx)" by simp
  show ?case
  proof (cases "event_row sr True m p i")
    case (Inl f)
    with event_row_scale[of sr m p i] have "event_row sr False m p i = Inl f"
      by (cases "event_row sr False m p i") simp_all
    with Inl i show ?thesis by (simp add: emit_rows_throw)
  next
    case (Inr r)
    with event_row_scale[of sr m p i] obtain r' where
      r': "event_row sr False m p i = Inr r'" "other_columns r = other_columns r'"
      by (cases "event_row sr False m p i") simp_all
    from Suc.hyps(2) have d: "d = length (events sr strand_idx) - (i + 1)" by simp
    from Suc.prems r'(2)
    have "map other_columns (out @ [r]) = map other_columns (out' @ [r'])" by simp
    from Suc.hyps(1)[OF d this] Inr r'(1) i show ?thesis by (simp add: emit_rows_step)
  qed
qed

subsection \<open>The option parser and the driver\<close>

lemma option_loop_Inr:
  "option_loop cs die opt = (out, Inr x) \<Longrightarrow> out = []"
  by (induction cs die opt rule: option_loop.induct) simp_all

lemma option_loop_returns:
  "Opt_help \<notin> set cs \<Longrightarrow> Opt_version \<notin> set cs \<Longrightarrow>
   \<exists>die' opt'. option_loop cs die opt = ([], Inr (die', opt'))"
  by (induction cs die opt rule: option_loop.induct) simp_all

lemma parse_after_loop:
  assumes "option_loop cs False opt0 = (out, Inr (die, opt))"
  shows "parse_dumpalignment_options cs extra opt0 =
           (if die \<or> 0 < extra \<or> num_threads opt \<le> 0 \<or> reads_file opt = []
            then ((if 0 < extra then [Too_Many_Arguments] else []) @
                  (if num_threads opt \<le> 0 then [Invalid_Number_Of_Threads (num_threads opt)]
                   else []) @
                  (if reads_file opt = [] then [Reads_File_Must_Be_Provided] else []) @
                  [Usage_Message], Inl EXIT_FAILURE)
            else ([], Inr opt))"
proof -
  from option_loop_Inr[OF assms] assms
  have "option_loop cs False opt0 = ([], Inr (die, opt))" by simp
  then show ?thesis by (simp add: parse_dumpalignment_options_def)
qed

lemma option_loop_help:
  "Opt_help \<notin> set pre \<Longrightarrow> Opt_version \<notin> set pre \<Longrightarrow>
   option_loop (pre @ Opt_help # post) die opt = ([Usage_Message], Inl EXIT_SUCCESS)"
proof (induction pre arbitrary: die opt)
  case Nil
  show ?case by simp
next
  case (Cons c pre)
  then show ?case by (cases c) simp_all
qed

lemma option_loop_version:
  "Opt_help \<notin> set pre \<Longrightarrow> Opt_version \<notin> set pre \<Longrightarrow>
   option_loop (pre @ Opt_version # post) die opt = ([Version_Message], Inl EXIT_SUCCESS)"
proof (induction pre arbitrary: die opt)
  case Nil
  show ?case by simp
next
  case (Cons c pre)
  then show ?case by (cases c) simp_all
qed

text \<open>
  When every read is dumped, the loop over the reads adds to the log one entry per read,
  in the order of the reads: the path made of the output directory and the name, and the
  rows of the read.
\<close>

lemma read_loop_all:
  "\<forall>(name, sr) \<in> set rs.
      \<exists>rows. dump_read sr (scale_events opt) (fw (output_dir opt @ ''/'' @ name @ ''.tsv''))
               = Inr rows \<Longrightarrow>
   \<exists>fs. read_loop opt fw rs files = (files @ fs, None) \<and>
        list_all2 (\<lambda>(name, sr) (path, rows).
                     path = output_dir opt @ ''/'' @ name @ ''.tsv'' \<and>
                     dump_read sr (scale_events opt) (fw path) = Inr rows) rs fs"
proof (induction rs arbitrary: files)
  case Nil
  then show ?case by simp
next
  case (Cons r rs)
  obtain name sr where r: "r = (name, sr)" by (cases r)
  let ?path = "output_dir opt @ ''/'' @ name @ ''.tsv''"
  from Cons.prems r obtain rows where
    rows: "dump_read sr (scale_events opt) (fw ?path) = Inr rows"
    by auto
  from Cons.prems have "\<forall>(name, sr) \<in> set rs.
      \<exists>rows. dump_read sr (scale_events opt) (fw (output_dir opt @ ''/'' @ name @ ''.tsv''))
               = Inr rows" by simp
  from Cons.IH[OF this, of "files @ [(?path, rows)]"]
  obtain fs where
    loop: "read_loop opt fw rs (files @ [(?path, rows)]) = ((files @ [(?path, rows)]) @ fs, None)"
    and all: "list_all2 (\<lambda>(name, sr) (path, rows).
                     path = output_dir opt @ ''/'' @ name @ ''.tsv'' \<and>
                     dump_read sr (scale_events opt) (fw path) = Inr rows) rs fs"
    by blast
  from r rows loop have "read_loop opt fw (r # rs) files = (files @ ((?path, rows) # fs), None)"
    by (simp add: Let_def)
  moreover from r rows all
  have "list_all2 (\<lambda>(name, sr) (path, rows).
                     path = output_dir opt @ ''/'' @ name @ ''.tsv'' \<and>
                     dump_read sr (scale_events opt) (fw path) = Inr rows)
          (r # rs) ((?path, rows) # fs)"
    by simp
  ultimately show ?case by blast
qed

section \<open>The claims\<close>

text \<open>
  C1. The specification lets an event without a containing range take the base index of
  the nearest preceding event that has one. The driver declares \<^verbatim>\<open>prev_idx\<close> for that and
  never assigns it: on \<open>stay_read\<close> event 0 is written with base 1 and event 1, a stay,
  with base 0 instead of 1.
\<close>

theorem stay_gets_base_zero:
  "dump_read stay_read False True =
     Inr [a_row False 0 1 ''CGTACG'', a_row False 1 0 ''NNNNNN'']"
  by (simp add: stay_read_def run_simps)

text \<open>
  C2. When the read is dumped, an event that lies in the range of at least one base is
  written with the highest of these bases, provided the base indices fit the \<^verbatim>\<open>int\<close> that
  stores them.
\<close>

theorem highest_claimant_wins:
  assumes "dump_read sr scale opened = Inr rows"
    and "ev < length (events sr strand_idx)"
    and "claimants sr ev \<noteq> []"
    and "length (base_to_event_map sr) \<le> 2 ^ 31"
  shows "base_index (rows ! ev) = int (Max (set (claimants sr ev)))"
proof -
  let ?tbl = "base_to_event_map sr"
  let ?S = "set (claimants sr ev)"
  define b where "b = Max ?S"
  have S: "?S = {c. c < length ?tbl \<and> covers (indices (?tbl ! c) strand_idx) ev}"
    by (auto simp: claimants_def)
  from assms(3) have "b \<in> ?S" unfolding b_def by (intro Max_in) simp_all
  with S have b: "b < length ?tbl" "covers (indices (?tbl ! b) strand_idx) ev" by auto
  have top: "\<forall>b'. b < b' \<and> b' < length ?tbl \<longrightarrow> \<not> covers (indices (?tbl ! b') strand_idx) ev"
  proof (intro allI impI notI)
    fix b' assume "b < b' \<and> b' < length ?tbl" and "covers (indices (?tbl ! b') strand_idx) ev"
    with S have "b' \<in> ?S" by auto
    then have "b' \<le> b" unfolding b_def by (intro Max_ge) simp_all
    with \<open>b < b' \<and> b' < length ?tbl\<close> show False by simp
  qed
  from dump_read_Inr[OF assms(1)] assms(2) obtain m where
    m: "event_to_base_map sr = Inr m" and len: "length m = length (events sr strand_idx)"
    and row: "event_row sr scale m 0 ev = Inr (rows ! ev)"
    by blast
  from m have "invert_loop ?tbl 0 (replicate (length (events sr strand_idx)) (- 1)) = Inr m"
    by (simp add: event_to_base_map_def)
  from invert_loop_nth[OF this, of ev] assms(2) b top
  have "m ! ev = int_of_size_t b" by simp
  moreover from b(1) assms(4) have "b < 2 ^ 31" by simp
  ultimately have "m ! ev = int b" by (simp add: int_of_size_t_small)
  with event_row_Inr(2)[OF row] show ?thesis unfolding b_def by simp
qed

theorem highest_claimant_wins_witness:
  "dump_read overlap_read True True = Inr overlap_rows \<and>
   claimants overlap_read 1 = [0, 1] \<and>
   base_index (overlap_rows ! 1) = int (Max (set (claimants overlap_read 1)))"
proof -
  have run: "dump_read overlap_read True True = Inr overlap_rows"
    by (simp add: overlap_read_def overlap_rows_def run_simps)
  have cl: "claimants overlap_read 1 = [0, 1]"
    by (simp add: overlap_read_def claimants_def covers_def a_read_def upt_rec)
  have ev: "1 < length (events overlap_read strand_idx)"
    by (simp add: overlap_read_def a_read_def)
  from cl have ne: "claimants overlap_read 1 \<noteq> []" by simp
  have fit: "length (base_to_event_map overlap_read) \<le> 2 ^ 31"
    by (simp add: overlap_read_def a_read_def)
  from highest_claimant_wins[OF run ev ne fit] run cl show ?thesis by simp
qed

text \<open>
  C3. The specification asks that a range with \<open>0 \<le> start\<close> and \<open>stop < start\<close> be
  reported as a fault. The inversion has no such check: on \<open>malformed_read\<close>, whose base 0
  has the range \<open>(1, 0)\<close>, the read is dumped as if base 0 had no event.
\<close>

theorem malformed_range_raises_no_fault:
  "dump_read malformed_read False True =
     Inr [a_row False 0 1 ''CGTACG'', a_row False 1 0 ''NNNNNN'']"
  by (simp add: malformed_read_def run_simps)

text \<open>
  C3, as the code has it: a range with \<open>stop < start\<close> claims no event and raises no
  fault. The loop goes on to the next base with the map as it was.
\<close>

theorem malformed_range_is_skipped:
  assumes "i < length tbl"
    and "stop (indices (tbl ! i) strand_idx) < start (indices (tbl ! i) strand_idx)"
  shows "invert_loop tbl i m = invert_loop tbl (i + 1) m"
  using assms by (intro invert_loop_step) (simp_all add: claim_events_skip)

theorem malformed_range_is_skipped_witness:
  "invert_loop (base_to_event_map malformed_read) 0 [- 1, - 1] =
     invert_loop (base_to_event_map malformed_read) (0 + 1) [- 1, - 1] \<and>
   invert_loop (base_to_event_map malformed_read) 0 [- 1, - 1] = Inr [1, - 1]"
proof -
  have i: "0 < length (base_to_event_map malformed_read)"
    by (simp add: malformed_read_def a_read_def)
  have r: "stop (indices (base_to_event_map malformed_read ! 0) strand_idx)
             < start (indices (base_to_event_map malformed_read ! 0) strand_idx)"
    by (simp add: malformed_read_def a_read_def)
  have "invert_loop (base_to_event_map malformed_read) 0 [- 1, - 1] = Inr [1, - 1]"
    by (simp add: malformed_read_def run_simps)
  with malformed_range_is_skipped[OF i r, of "[- 1, - 1]"] show ?thesis by simp
qed

text \<open>
  C4. When the read is dumped, there is one row per event of strand 0, and the rows carry
  the event indices \<open>0, 1, 2, \<dots>\<close> in this order: no gap, no duplicate, strictly
  increasing.
\<close>

theorem one_row_per_event:
  assumes "dump_read sr scale opened = Inr rows"
  shows "length rows = length (events sr strand_idx) \<and>
         map event_index rows = [0 ..< length (events sr strand_idx)]"
proof -
  from dump_read_Inr[OF assms] obtain m where
    len: "length rows = length (events sr strand_idx)"
    and row: "\<forall>j < length (events sr strand_idx). event_row sr scale m 0 j = Inr (rows ! j)"
    by blast
  have "map event_index rows = [0 ..< length (events sr strand_idx)]"
  proof (rule nth_equalityI)
    show "length (map event_index rows) = length [0 ..< length (events sr strand_idx)]"
      using len by simp
  next
    fix j assume "j < length (map event_index rows)"
    with len have j: "j < length (events sr strand_idx)" by simp
    with row have "event_row sr scale m 0 j = Inr (rows ! j)" by blast
    from event_row_Inr(1)[OF this] j len
    show "map event_index rows ! j = [0 ..< length (events sr strand_idx)] ! j" by simp
  qed
  with len show ?thesis by simp
qed

theorem one_row_per_event_witness:
  "dump_read scenario_A False True = Inr scenario_A_rows \<and>
   length scenario_A_rows = 3 \<and> map event_index scenario_A_rows = [0, 1, 2]"
proof -
  have run: "dump_read scenario_A False True = Inr scenario_A_rows"
    by (simp add: scenario_A_def scenario_A_rows_def run_simps)
  have n: "length (events scenario_A strand_idx) = 3"
    by (simp add: scenario_A_def a_read_def)
  have "[0 ..< 3] = [0, 1, 2::nat]" by (simp add: upt_rec)
  with one_row_per_event[OF run] run n show ?thesis by simp
qed

text \<open>
  C5. When the read is dumped: the row of an event with base \<open>b\<close> in the map, where
  \<open>b + 6\<close> does not exceed the length of the sequence, has the base index \<open>b\<close> and as
  k-mer the 6 characters of the sequence from \<open>b\<close> on; the row of an event without a
  base has the k-mer \<open>NNNNNN\<close>.
\<close>

theorem kmer_of_row:
  assumes "dump_read sr scale opened = Inr rows"
    and "event_to_base_map sr = Inr m"
    and "ev < length (events sr strand_idx)"
  shows "(0 \<le> m ! ev \<and> nat (m ! ev) + k \<le> length (read_sequence sr) \<longrightarrow>
            base_index (rows ! ev) = m ! ev \<and>
            kmer (rows ! ev) = take k (drop (nat (m ! ev)) (read_sequence sr)) \<and>
            length (kmer (rows ! ev)) = k) \<and>
         (m ! ev < 0 \<longrightarrow> kmer (rows ! ev) = ''NNNNNN'')"
proof -
  from dump_read_Inr[OF assms(1)] assms(2,3)
  have row: "event_row sr scale m 0 ev = Inr (rows ! ev)" by auto
  from event_row_Inr(2,3)[OF row] show ?thesis by auto
qed

theorem kmer_of_row_witness:
  "dump_read stay_read True True = Inr stay_rows \<and>
   event_to_base_map stay_read = Inr [1, - 1] \<and>
   kmer (stay_rows ! 0) = ''CGTACG'' \<and> kmer (stay_rows ! 1) = ''NNNNNN''"
proof -
  have run: "dump_read stay_read True True = Inr stay_rows"
    by (simp add: stay_read_def stay_rows_def run_simps)
  have m: "event_to_base_map stay_read = Inr [1, - 1]"
    by (simp add: stay_read_def run_simps)
  have e0: "0 < length (events stay_read strand_idx)"
    and e1: "1 < length (events stay_read strand_idx)"
    by (simp_all add: stay_read_def a_read_def)
  have s: "read_sequence stay_read = ''ACGTACGT''"
    by (simp add: stay_read_def a_read_def)
  from kmer_of_row[OF run m e0] s have "kmer (stay_rows ! 0) = ''CGTACG''" by simp
  moreover from kmer_of_row[OF run m e1] have "kmer (stay_rows ! 1) = ''NNNNNN''" by simp
  ultimately show ?thesis using run m by simp
qed

text \<open>
  C6. The specification wants an empty or short k-mer when the base index exceeds the
  length of the sequence. \<^verbatim>\<open>substr\<close> does that up to the length and throws beyond it:
  on \<open>short_read\<close>, where event 0 belongs to base 5 of a sequence of 4 characters, the
  dump ends with the exception.
\<close>

theorem base_index_beyond_sequence_throws:
  "dump_read short_read False True = Inl Out_Of_Range"
  by (simp add: short_read_def run_simps)

text \<open>
  C6, as the code has it. Let the inversion return the map \<open>m\<close> and the output file be
  open. If some event has a base index above the length of the sequence, the dump ends
  with \<^verbatim>\<open>std::out_of_range\<close>. Otherwise the read is dumped, and the k-mer of an event with
  base \<open>b\<close> is what the sequence has from \<open>b\<close> on, at most 6 characters: shorter when
  fewer than 6 remain, empty when \<open>b\<close> is the length.
\<close>

theorem kmer_at_sequence_end:
  assumes "event_to_base_map sr = Inr m"
  shows "((\<exists>ev < length (events sr strand_idx).
             0 \<le> m ! ev \<and> length (read_sequence sr) < nat (m ! ev))
            \<longrightarrow> dump_read sr scale True = Inl Out_Of_Range) \<and>
         ((\<forall>ev < length (events sr strand_idx).
             0 \<le> m ! ev \<longrightarrow> nat (m ! ev) \<le> length (read_sequence sr))
            \<longrightarrow> (\<exists>rows. dump_read sr scale True = Inr rows \<and>
                  (\<forall>ev < length (events sr strand_idx). 0 \<le> m ! ev \<longrightarrow>
                     kmer (rows ! ev) = take k (drop (nat (m ! ev)) (read_sequence sr)) \<and>
                     length (kmer (rows ! ev))
                       = min k (length (read_sequence sr) - nat (m ! ev)))))"
proof (intro conjI impI)
  let ?n = "length (events sr strand_idx)"
  from assms have run: "dump_read sr scale True = emit_rows sr scale m 0 0 []"
    by (simp add: dump_read_def)
  {
    assume "\<exists>ev < ?n. 0 \<le> m ! ev \<and> length (read_sequence sr) < nat (m ! ev)"
    then obtain ev where ev: "ev < ?n" "0 \<le> m ! ev" "length (read_sequence sr) < nat (m ! ev)"
      by blast
    show "dump_read sr scale True = Inl Out_Of_Range"
    proof (cases "emit_rows sr scale m 0 0 []")
      case (Inl f)
      from emit_rows_Inl[OF Inl] obtain j where "event_row sr scale m 0 j = Inl f" by blast
      from event_row_Inl(1)[OF this] Inl run show ?thesis by simp
    next
      case (Inr rows)
      from emit_rows_Inr[OF Inr] ev(1) have "event_row sr scale m 0 ev = Inr (rows ! ev)"
        by simp
      from event_row_Inr(4)[OF this ev(2)] ev(3) show ?thesis by simp
    qed
  }
  {
    assume ok: "\<forall>ev < ?n. 0 \<le> m ! ev \<longrightarrow> nat (m ! ev) \<le> length (read_sequence sr)"
    obtain rows where rows: "emit_rows sr scale m 0 0 [] = Inr rows"
    proof (cases "emit_rows sr scale m 0 0 []")
      case (Inl f)
      from emit_rows_Inl[OF Inl] obtain j where
        j: "j < ?n" "event_row sr scale m 0 j = Inl f" by blast
      from event_row_Inl(2,3)[OF j(2)] ok j(1) show ?thesis by fastforce
    next
      case (Inr rows)
      then show ?thesis by (rule that)
    qed
    have "\<forall>ev < ?n. 0 \<le> m ! ev \<longrightarrow>
            kmer (rows ! ev) = take k (drop (nat (m ! ev)) (read_sequence sr)) \<and>
            length (kmer (rows ! ev)) = min k (length (read_sequence sr) - nat (m ! ev))"
    proof (intro allI impI)
      fix ev assume ev: "ev < ?n" "0 \<le> m ! ev"
      from emit_rows_Inr[OF rows] ev(1) have "event_row sr scale m 0 ev = Inr (rows ! ev)"
        by simp
      from event_row_Inr(3)[OF this] ev(2)
      have "kmer (rows ! ev) = take k (drop (nat (m ! ev)) (read_sequence sr))" by simp
      then show "kmer (rows ! ev) = take k (drop (nat (m ! ev)) (read_sequence sr)) \<and>
            length (kmer (rows ! ev)) = min k (length (read_sequence sr) - nat (m ! ev))"
        by (simp add: min.commute)
    qed
    moreover from rows run have "dump_read sr scale True = Inr rows" by simp
    ultimately
    show "\<exists>rows. dump_read sr scale True = Inr rows \<and>
            (\<forall>ev < ?n. 0 \<le> m ! ev \<longrightarrow>
               kmer (rows ! ev) = take k (drop (nat (m ! ev)) (read_sequence sr)) \<and>
               length (kmer (rows ! ev)) = min k (length (read_sequence sr) - nat (m ! ev)))"
      by blast
  }
qed

theorem kmer_at_sequence_end_witness:
  "event_to_base_map scenario_A = Inr [1, 1, 3] \<and>
   dump_read scenario_A False True = Inr scenario_A_rows \<and>
   kmer (scenario_A_rows ! 2) = ''TACGT'' \<and>
   event_to_base_map short_read = Inr [5] \<and>
   dump_read short_read True True = Inl Out_Of_Range"
proof -
  have mA: "event_to_base_map scenario_A = Inr [1, 1, 3]"
    by (simp add: scenario_A_def run_simps)
  have nA: "length (events scenario_A strand_idx) = 3"
    and sA: "read_sequence scenario_A = ''ACGTACGT''"
    by (simp_all add: scenario_A_def a_read_def)
  have runA: "dump_read scenario_A False True = Inr scenario_A_rows"
    by (simp add: scenario_A_def scenario_A_rows_def run_simps)
  have "\<forall>ev < length (events scenario_A strand_idx).
          0 \<le> [1, 1, 3 :: int] ! ev \<longrightarrow> nat ([1, 1, 3] ! ev) \<le> length (read_sequence scenario_A)"
    unfolding nA sA by (simp add: less_Suc_eq nth_Cons')
  with kmer_at_sequence_end[OF mA, of False] runA
  have "\<forall>ev < length (events scenario_A strand_idx). 0 \<le> [1, 1, 3 :: int] ! ev \<longrightarrow>
          kmer (scenario_A_rows ! ev)
            = take k (drop (nat ([1, 1, 3] ! ev)) (read_sequence scenario_A))"
    by auto
  then have "kmer (scenario_A_rows ! 2) = take k (drop (nat ([1, 1, 3] ! 2)) (read_sequence scenario_A))"
    unfolding nA by simp
  then have kA: "kmer (scenario_A_rows ! 2) = ''TACGT''"
    by (simp add: sA)
  have mS: "event_to_base_map short_read = Inr [5]"
    by (simp add: short_read_def run_simps)
  have "\<exists>ev < length (events short_read strand_idx).
          0 \<le> [5 :: int] ! ev \<and> length (read_sequence short_read) < nat ([5] ! ev)"
    by (intro exI[of _ 0]) (simp add: short_read_def a_read_def)
  with kmer_at_sequence_end[OF mS, of True]
  have "dump_read short_read True True = Inl Out_Of_Range" by blast
  with mA runA kA mS show ?thesis by simp
qed

text \<open>
  C7. The two runs of a read, with and without \<^verbatim>\<open>--scale-events\<close>, end with the same
  fault or write rows that agree in every column other than \<open>event_mean\<close>.
\<close>

theorem scale_events_changes_event_mean_only:
  "map_sum id (map other_columns) (dump_read sr True opened)
     = map_sum id (map other_columns) (dump_read sr False opened)"
  by (cases "event_to_base_map sr") (simp_all add: dump_read_def emit_rows_scale)

text \<open>
  C8. A read without bases: the map has \<open>-1\<close> for every event, the read is dumped, and
  every row has the base index 0 and the k-mer \<open>NNNNNN\<close>.
\<close>

theorem empty_table_all_unassigned:
  assumes "base_to_event_map sr = []"
  shows "event_to_base_map sr = Inr (replicate (length (events sr strand_idx)) (- 1)) \<and>
         (\<exists>rows. dump_read sr scale True = Inr rows \<and>
                  length rows = length (events sr strand_idx) \<and>
                  (\<forall>r \<in> set rows. base_index r = 0 \<and> kmer r = ''NNNNNN''))"
proof -
  let ?n = "length (events sr strand_idx)"
  let ?m = "replicate ?n (- 1 :: int)"
  from assms have m: "event_to_base_map sr = Inr ?m"
    by (simp add: event_to_base_map_def invert_loop_done)
  have neg: "\<And>j. j < ?n \<Longrightarrow> ?m ! j < 0" by simp
  obtain rows where rows: "emit_rows sr scale ?m 0 0 [] = Inr rows"
  proof (cases "emit_rows sr scale ?m 0 0 []")
    case (Inl f)
    from emit_rows_Inl[OF Inl] obtain j where
      "j < ?n" "event_row sr scale ?m 0 j = Inl f" by blast
    with event_row_Inl(2)[OF this(2)] neg[OF this(1)] show ?thesis by simp
  next
    case (Inr rows)
    then show ?thesis by (rule that)
  qed
  from m rows have run: "dump_read sr scale True = Inr rows" by (simp add: dump_read_def)
  from emit_rows_Inr[OF rows]
  have len: "length rows = ?n"
    and row: "\<And>j. j < ?n \<Longrightarrow> event_row sr scale ?m 0 j = Inr (rows ! j)"
    by simp_all
  have "\<forall>r \<in> set rows. base_index r = 0 \<and> kmer r = ''NNNNNN''"
  proof
    fix r assume "r \<in> set rows"
    then obtain j where j: "j < length rows" "rows ! j = r" by (auto simp: in_set_conv_nth)
    with len have jn: "j < ?n" by simp
    from event_row_Inr(2,3)[OF row[OF jn]] j(2) jn
    show "base_index r = 0 \<and> kmer r = ''NNNNNN''" by simp
  qed
  with m run len show ?thesis by blast
qed

theorem empty_table_all_unassigned_witness:
  "event_to_base_map baseless_read = Inr [- 1, - 1] \<and>
   dump_read baseless_read False True =
     Inr [a_row False 0 0 ''NNNNNN'', a_row False 1 0 ''NNNNNN'']"
proof -
  have t: "base_to_event_map baseless_read = []"
    by (simp add: baseless_read_def a_read_def)
  have n: "replicate (length (events baseless_read strand_idx)) (- 1 :: int) = [- 1, - 1]"
    by (simp add: baseless_read_def a_read_def)
  have "dump_read baseless_read False True =
     Inr [a_row False 0 0 ''NNNNNN'', a_row False 1 0 ''NNNNNN'']"
    by (simp add: baseless_read_def run_simps)
  with empty_table_all_unassigned[OF t, of False] n show ?thesis by simp
qed

text \<open>
  C9. The claim speaks of every invocation with a thread count that is not positive or
  without \<^verbatim>\<open>--reads\<close>. The option loop leaves with \<^verbatim>\<open>exit(EXIT_SUCCESS)\<close> at
  \<^verbatim>\<open>--help\<close> and at \<^verbatim>\<open>--version\<close>, before the checks: \<^verbatim>\<open>-t 0 --help\<close>, which has both
  defects, ends with status 0.
\<close>

theorem help_exits_with_success:
  "dumpalignment_main help_invocation =
     \<lparr> messages = [Usage_Message], written = [], ending = Exited 0 \<rparr>"
  by (simp add: help_invocation_def an_invocation_def dumpalignment_main_def
        parse_dumpalignment_options_def initial_opt_def EXIT_SUCCESS_def)

text \<open>
  C9, as the code has it.
  \<^item> An invocation with \<^verbatim>\<open>--help\<close> or \<^verbatim>\<open>--version\<close> among its options prints the usage,
    respectively the version, and leaves with \<^verbatim>\<open>exit(EXIT_SUCCESS)\<close> at the first of
    them, whatever the other options are: nothing else is printed, no read is dumped.
  \<^item> Every other invocation runs the option loop to its end, leaving the flag \<open>die\<close> and
    the options \<open>opt\<close>. If an option was unknown, an argument is left over, the thread
    count is not positive or the reads path is empty, the driver prints one message per
    defect of the last three kinds, then the usage, and leaves with
    \<^verbatim>\<open>exit(EXIT_FAILURE)\<close>, no read dumped. Otherwise the parser returns \<open>opt\<close> without a
    message; when the reads file opens and every read is dumped, the driver prints
    nothing, returns \<^verbatim>\<open>EXIT_SUCCESS\<close> and has written, for each read in turn, the rows of
    the read through the path made of the output directory and the name of the read.
\<close>

theorem option_validation:
  "(getopt_results env = pre @ Opt_help # post \<and>
    Opt_help \<notin> set pre \<and> Opt_version \<notin> set pre \<longrightarrow>
      dumpalignment_main env =
        \<lparr> messages = [Usage_Message], written = [], ending = Exited EXIT_SUCCESS \<rparr>) \<and>
   (getopt_results env = pre @ Opt_version # post \<and>
    Opt_help \<notin> set pre \<and> Opt_version \<notin> set pre \<longrightarrow>
      dumpalignment_main env =
        \<lparr> messages = [Version_Message], written = [], ending = Exited EXIT_SUCCESS \<rparr>) \<and>
   (Opt_help \<notin> set (getopt_results env) \<and> Opt_version \<notin> set (getopt_results env) \<longrightarrow>
      (\<exists>die opt.
         option_loop (getopt_results env) False initial_opt = ([], Inr (die, opt)) \<and>
         (die \<or> 0 < remaining_args env \<or> num_threads opt \<le> 0 \<or> reads_file opt = [] \<longrightarrow>
            dumpalignment_main env =
              \<lparr> messages =
                  (if 0 < remaining_args env then [Too_Many_Arguments] else []) @
                  (if num_threads opt \<le> 0 then [Invalid_Number_Of_Threads (num_threads opt)]
                   else []) @
                  (if reads_file opt = [] then [Reads_File_Must_Be_Provided] else []) @
                  [Usage_Message],
                written = [], ending = Exited EXIT_FAILURE \<rparr>) \<and>
         (\<not> die \<and> remaining_args env \<le> 0 \<and> 0 < num_threads opt \<and> reads_file opt \<noteq> [] \<longrightarrow>
            parse_dumpalignment_options (getopt_results env) (remaining_args env) initial_opt
              = ([], Inr opt) \<and>
            (fopen_read env (reads_file opt) \<and> gzdopen_ok env \<and>
             (\<forall>(name, sr) \<in> set (sequences env).
                 \<exists>rows. dump_read sr (scale_events opt)
                           (fopen_write env (output_dir opt @ ''/'' @ name @ ''.tsv''))
                         = Inr rows) \<longrightarrow>
               messages (dumpalignment_main env) = [] \<and>
               ending (dumpalignment_main env) = Returned EXIT_SUCCESS \<and>
               list_all2 (\<lambda>(name, sr) (path, rows).
                            path = output_dir opt @ ''/'' @ name @ ''.tsv'' \<and>
                            dump_read sr (scale_events opt) (fopen_write env path) = Inr rows)
                 (sequences env) (written (dumpalignment_main env))))))"
proof (intro conjI impI)
  assume "getopt_results env = pre @ Opt_help # post \<and>
    Opt_help \<notin> set pre \<and> Opt_version \<notin> set pre"
  with option_loop_help[of pre post False initial_opt]
  show "dumpalignment_main env =
        \<lparr> messages = [Usage_Message], written = [], ending = Exited EXIT_SUCCESS \<rparr>"
    by (simp add: dumpalignment_main_def parse_dumpalignment_options_def)
next
  assume "getopt_results env = pre @ Opt_version # post \<and>
    Opt_help \<notin> set pre \<and> Opt_version \<notin> set pre"
  with option_loop_version[of pre post False initial_opt]
  show "dumpalignment_main env =
        \<lparr> messages = [Version_Message], written = [], ending = Exited EXIT_SUCCESS \<rparr>"
    by (simp add: dumpalignment_main_def parse_dumpalignment_options_def)
next
  assume "Opt_help \<notin> set (getopt_results env) \<and> Opt_version \<notin> set (getopt_results env)"
  with option_loop_returns[of "getopt_results env" False initial_opt]
  obtain die opt where
    loop: "option_loop (getopt_results env) False initial_opt = ([], Inr (die, opt))"
    by blast
  note parse = parse_after_loop[OF loop, of "remaining_args env"]
  have bad: "die \<or> 0 < remaining_args env \<or> num_threads opt \<le> 0 \<or> reads_file opt = [] \<longrightarrow>
            dumpalignment_main env =
              \<lparr> messages =
                  (if 0 < remaining_args env then [Too_Many_Arguments] else []) @
                  (if num_threads opt \<le> 0 then [Invalid_Number_Of_Threads (num_threads opt)]
                   else []) @
                  (if reads_file opt = [] then [Reads_File_Must_Be_Provided] else []) @
                  [Usage_Message],
                written = [], ending = Exited EXIT_FAILURE \<rparr>"
  proof
    assume "die \<or> 0 < remaining_args env \<or> num_threads opt \<le> 0 \<or> reads_file opt = []"
    with parse
    have "parse_dumpalignment_options (getopt_results env) (remaining_args env) initial_opt =
           ((if 0 < remaining_args env then [Too_Many_Arguments] else []) @
            (if num_threads opt \<le> 0 then [Invalid_Number_Of_Threads (num_threads opt)]
             else []) @
            (if reads_file opt = [] then [Reads_File_Must_Be_Provided] else []) @
            [Usage_Message], Inl EXIT_FAILURE)"
      by (simp only: if_True)
    then show "dumpalignment_main env =
              \<lparr> messages =
                  (if 0 < remaining_args env then [Too_Many_Arguments] else []) @
                  (if num_threads opt \<le> 0 then [Invalid_Number_Of_Threads (num_threads opt)]
                   else []) @
                  (if reads_file opt = [] then [Reads_File_Must_Be_Provided] else []) @
                  [Usage_Message],
                written = [], ending = Exited EXIT_FAILURE \<rparr>"
      by (simp add: dumpalignment_main_def)
  qed
  have good: "\<not> die \<and> remaining_args env \<le> 0 \<and> 0 < num_threads opt \<and> reads_file opt \<noteq> [] \<longrightarrow>
            parse_dumpalignment_options (getopt_results env) (remaining_args env) initial_opt
              = ([], Inr opt) \<and>
            (fopen_read env (reads_file opt) \<and> gzdopen_ok env \<and>
             (\<forall>(name, sr) \<in> set (sequences env).
                 \<exists>rows. dump_read sr (scale_events opt)
                           (fopen_write env (output_dir opt @ ''/'' @ name @ ''.tsv''))
                         = Inr rows) \<longrightarrow>
               messages (dumpalignment_main env) = [] \<and>
               ending (dumpalignment_main env) = Returned EXIT_SUCCESS \<and>
               list_all2 (\<lambda>(name, sr) (path, rows).
                            path = output_dir opt @ ''/'' @ name @ ''.tsv'' \<and>
                            dump_read sr (scale_events opt) (fopen_write env path) = Inr rows)
                 (sequences env) (written (dumpalignment_main env)))"
  proof (intro impI conjI)
    assume ok: "\<not> die \<and> remaining_args env \<le> 0 \<and> 0 < num_threads opt \<and> reads_file opt \<noteq> []"
    with parse
    show p: "parse_dumpalignment_options (getopt_results env) (remaining_args env) initial_opt
              = ([], Inr opt)"
      by auto
    assume io: "fopen_read env (reads_file opt) \<and> gzdopen_ok env \<and>
             (\<forall>(name, sr) \<in> set (sequences env).
                 \<exists>rows. dump_read sr (scale_events opt)
                           (fopen_write env (output_dir opt @ ''/'' @ name @ ''.tsv''))
                         = Inr rows)"
    then have "\<forall>(name, sr) \<in> set (sequences env).
                 \<exists>rows. dump_read sr (scale_events opt)
                           (fopen_write env (output_dir opt @ ''/'' @ name @ ''.tsv''))
                         = Inr rows" by blast
    from read_loop_all[OF this, of "[]"] obtain fs where
      fs: "read_loop opt (fopen_write env) (sequences env) [] = (fs, None)"
      and all: "list_all2 (\<lambda>(name, sr) (path, rows).
                            path = output_dir opt @ ''/'' @ name @ ''.tsv'' \<and>
                            dump_read sr (scale_events opt) (fopen_write env path) = Inr rows)
                 (sequences env) fs"
      by auto
    from p io fs have main: "dumpalignment_main env =
        \<lparr> messages = [], written = fs, ending = Returned EXIT_SUCCESS \<rparr>"
      by (simp add: dumpalignment_main_def)
    from main show "messages (dumpalignment_main env) = []"
      and "ending (dumpalignment_main env) = Returned EXIT_SUCCESS"
      by simp_all
    from main all show "list_all2 (\<lambda>(name, sr) (path, rows).
                            path = output_dir opt @ ''/'' @ name @ ''.tsv'' \<and>
                            dump_read sr (scale_events opt) (fopen_write env path) = Inr rows)
                 (sequences env) (written (dumpalignment_main env))"
      by simp
  qed
  from loop bad good
  show "\<exists>die opt.
         option_loop (getopt_results env) False initial_opt = ([], Inr (die, opt)) \<and>
         (die \<or> 0 < remaining_args env \<or> num_threads opt \<le> 0 \<or> reads_file opt = [] \<longrightarrow>
            dumpalignment_main env =
              \<lparr> messages =
                  (if 0 < remaining_args env then [Too_Many_Arguments] else []) @
                  (if num_threads opt \<le> 0 then [Invalid_Number_Of_Threads (num_threads opt)]
                   else []) @
                  (if reads_file opt = [] then [Reads_File_Must_Be_Provided] else []) @
                  [Usage_Message],
                written = [], ending = Exited EXIT_FAILURE \<rparr>) \<and>
         (\<not> die \<and> remaining_args env \<le> 0 \<and> 0 < num_threads opt \<and> reads_file opt \<noteq> [] \<longrightarrow>
            parse_dumpalignment_options (getopt_results env) (remaining_args env) initial_opt
              = ([], Inr opt) \<and>
            (fopen_read env (reads_file opt) \<and> gzdopen_ok env \<and>
             (\<forall>(name, sr) \<in> set (sequences env).
                 \<exists>rows. dump_read sr (scale_events opt)
                           (fopen_write env (output_dir opt @ ''/'' @ name @ ''.tsv''))
                         = Inr rows) \<longrightarrow>
               messages (dumpalignment_main env) = [] \<and>
               ending (dumpalignment_main env) = Returned EXIT_SUCCESS \<and>
               list_all2 (\<lambda>(name, sr) (path, rows).
                            path = output_dir opt @ ''/'' @ name @ ''.tsv'' \<and>
                            dump_read sr (scale_events opt) (fopen_write env path) = Inr rows)
                 (sequences env) (written (dumpalignment_main env))))"
    by blast
qed

theorem option_validation_witness:
  "dumpalignment_main help_invocation =
     \<lparr> messages = [Usage_Message], written = [], ending = Exited 0 \<rparr> \<and>
   dumpalignment_main version_invocation =
     \<lparr> messages = [Version_Message], written = [], ending = Exited 0 \<rparr> \<and>
   dumpalignment_main invalid_invocation =
     \<lparr> messages = [Invalid_Number_Of_Threads 0, Reads_File_Must_Be_Provided, Usage_Message],
       written = [], ending = Exited 1 \<rparr> \<and>
   messages (dumpalignment_main valid_invocation) = [] \<and>
   ending (dumpalignment_main valid_invocation) = Returned 0 \<and>
   written (dumpalignment_main valid_invocation) = [(''out/read1.tsv'', scenario_A_rows)]"
proof -
  have "getopt_results help_invocation = [Opt_t 0] @ Opt_help # [] \<and>
        Opt_help \<notin> set [Opt_t 0] \<and> Opt_version \<notin> set [Opt_t 0]"
    by (simp add: help_invocation_def an_invocation_def)
  with option_validation[of help_invocation "[Opt_t 0]" "[]"]
  have h: "dumpalignment_main help_invocation =
     \<lparr> messages = [Usage_Message], written = [], ending = Exited 0 \<rparr>"
    unfolding EXIT_SUCCESS_def by blast
  have "getopt_results version_invocation = [] @ Opt_version # [Opt_unknown] \<and>
        Opt_help \<notin> set [] \<and> Opt_version \<notin> set []"
    by (simp add: version_invocation_def an_invocation_def)
  with option_validation[of version_invocation "[]" "[Opt_unknown]"]
  have v: "dumpalignment_main version_invocation =
     \<lparr> messages = [Version_Message], written = [], ending = Exited 0 \<rparr>"
    unfolding EXIT_SUCCESS_def by blast
  have n1: "Opt_help \<notin> set (getopt_results invalid_invocation) \<and>
            Opt_version \<notin> set (getopt_results invalid_invocation)"
    by (simp add: invalid_invocation_def an_invocation_def)
  have l1: "option_loop (getopt_results invalid_invocation) False initial_opt =
      ([], Inr (False, initial_opt\<lparr>num_threads := 0\<rparr>))"
    by (simp add: invalid_invocation_def an_invocation_def)
  from option_validation[of invalid_invocation "[]" "[]"] n1 obtain die1 opt1 where
    "option_loop (getopt_results invalid_invocation) False initial_opt = ([], Inr (die1, opt1))"
    and b1: "die1 \<or> 0 < remaining_args invalid_invocation \<or> num_threads opt1 \<le> 0 \<or>
             reads_file opt1 = [] \<longrightarrow>
            dumpalignment_main invalid_invocation =
              \<lparr> messages =
                  (if 0 < remaining_args invalid_invocation then [Too_Many_Arguments] else []) @
                  (if num_threads opt1 \<le> 0 then [Invalid_Number_Of_Threads (num_threads opt1)]
                   else []) @
                  (if reads_file opt1 = [] then [Reads_File_Must_Be_Provided] else []) @
                  [Usage_Message],
                written = [], ending = Exited EXIT_FAILURE \<rparr>"
    by blast
  with l1 have o1: "die1 = False" "opt1 = initial_opt\<lparr>num_threads := 0\<rparr>" by simp_all
  have r1: "remaining_args invalid_invocation = 0"
    by (simp add: invalid_invocation_def an_invocation_def)
  from b1 have i: "dumpalignment_main invalid_invocation =
     \<lparr> messages = [Invalid_Number_Of_Threads 0, Reads_File_Must_Be_Provided, Usage_Message],
       written = [], ending = Exited 1 \<rparr>"
    unfolding o1 r1 by (simp add: initial_opt_def EXIT_FAILURE_def)
  let ?opt = "initial_opt\<lparr>reads_file := ''reads.fa'', num_threads := 4, output_dir := ''out''\<rparr>"
  have n2: "Opt_help \<notin> set (getopt_results valid_invocation) \<and>
            Opt_version \<notin> set (getopt_results valid_invocation)"
    by (simp add: valid_invocation_def an_invocation_def)
  have l2: "option_loop (getopt_results valid_invocation) False initial_opt =
      ([], Inr (False, ?opt))"
    by (simp add: valid_invocation_def an_invocation_def)
  have run: "dump_read scenario_A False True = Inr scenario_A_rows"
    by (simp add: scenario_A_def scenario_A_rows_def run_simps)
  from option_validation[of valid_invocation "[]" "[]"] n2 obtain die2 opt2 where
    "option_loop (getopt_results valid_invocation) False initial_opt = ([], Inr (die2, opt2))"
    and g2: "\<not> die2 \<and> remaining_args valid_invocation \<le> 0 \<and> 0 < num_threads opt2 \<and>
             reads_file opt2 \<noteq> [] \<longrightarrow>
            parse_dumpalignment_options (getopt_results valid_invocation)
              (remaining_args valid_invocation) initial_opt = ([], Inr opt2) \<and>
            (fopen_read valid_invocation (reads_file opt2) \<and> gzdopen_ok valid_invocation \<and>
             (\<forall>(name, sr) \<in> set (sequences valid_invocation).
                 \<exists>rows. dump_read sr (scale_events opt2)
                           (fopen_write valid_invocation
                              (output_dir opt2 @ ''/'' @ name @ ''.tsv''))
                         = Inr rows) \<longrightarrow>
               messages (dumpalignment_main valid_invocation) = [] \<and>
               ending (dumpalignment_main valid_invocation) = Returned EXIT_SUCCESS \<and>
               list_all2 (\<lambda>(name, sr) (path, rows).
                            path = output_dir opt2 @ ''/'' @ name @ ''.tsv'' \<and>
                            dump_read sr (scale_events opt2) (fopen_write valid_invocation path)
                              = Inr rows)
                 (sequences valid_invocation) (written (dumpalignment_main valid_invocation)))"
    by blast
  with l2 have o2: "die2 = False" "opt2 = ?opt" by simp_all
  have ok: "\<not> False \<and> remaining_args valid_invocation \<le> 0 \<and> 0 < num_threads ?opt \<and>
            reads_file ?opt \<noteq> []"
    by (simp add: valid_invocation_def an_invocation_def)
  have io: "fopen_read valid_invocation (reads_file ?opt) \<and> gzdopen_ok valid_invocation \<and>
      (\<forall>(name, sr) \<in> set (sequences valid_invocation).
          \<exists>rows. dump_read sr (scale_events ?opt)
                    (fopen_write valid_invocation (output_dir ?opt @ ''/'' @ name @ ''.tsv''))
                  = Inr rows)"
    using run by (simp add: valid_invocation_def an_invocation_def initial_opt_def)
  from g2[unfolded o2] ok io
  have m: "messages (dumpalignment_main valid_invocation) = []"
    and e: "ending (dumpalignment_main valid_invocation) = Returned EXIT_SUCCESS"
    and w: "list_all2 (\<lambda>(name, sr) (path, rows).
                            path = output_dir ?opt @ ''/'' @ name @ ''.tsv'' \<and>
                            dump_read sr (scale_events ?opt) (fopen_write valid_invocation path)
                              = Inr rows)
                 (sequences valid_invocation) (written (dumpalignment_main valid_invocation))"
    by blast+
  from w run have "written (dumpalignment_main valid_invocation)
                     = [(''out/read1.tsv'', scenario_A_rows)]"
    by (auto simp: valid_invocation_def an_invocation_def initial_opt_def
          list_all2_Cons1)
  with h v i m e show ?thesis by (simp add: EXIT_SUCCESS_def)
qed




end
